theory Spec2Isabelle
  imports Main
begin

section \<open>Data model\<close>

text \<open>
  The scanner front end exists in two variants. The cached variant
  (\<^verbatim>\<open>src/unnamed/part_000\<close>) keeps a result cache, a persisted deletion history and a
  background pre-cache timer. The basic variant (\<^verbatim>\<open>src/unnamed/part_001\<close> and
  \<^verbatim>\<open>src/src/App-Bubble.jsx\<close>, whose handlers are the same text) rescans on every
  navigation. Both are React components: a handler reads the state of the render it was
  created in and writes through setters. Each handler is modelled as one function from the
  state before the call to the state after it has run to completion.

  A size is a JavaScript number whose value is a non-negative integer (the backend sends
  an unsigned 64-bit count of bytes). The model holds that integer as a natural number;
  where the source adds sizes, the model rounds as the addition of doubles does.
\<close>

record file_info =
  path :: string
  name :: string
  size_bytes :: nat
  is_directory :: bool

record entry = file_info +
  item_count :: "nat option"
  error :: "string option"

record delete_record = file_info +
  deleted_at :: int
  deleted_at_readable :: string

record scan_stats =
  count :: nat
  totalSize :: nat

record cache_entry =
  c_items :: "entry list"
  c_stats :: scan_stats
  timestamp :: int

type_synonym cache = "string \<rightharpoonup> cache_entry"

text \<open>Backend commands passed to \<^verbatim>\<open>invoke\<close>, and the messages of \<^verbatim>\<open>window.alert\<close>.\<close>

datatype command =
    ScanFast string
  | ScanFull string
  | DeleteItems "string list"

datatype alert =
    ScanFailed string
  | DeleteOk
  | DeleteFailed string
  | HistoryCleared

text \<open>
  Everything a handler asks of the outside: the two scan commands and the delete command
  of the backend (\<open>Inl\<close> is a rejected promise with its error), the answer to
  \<^verbatim>\<open>window.confirm\<close>, the successive readings of \<^verbatim>\<open>Date.now()\<close> and the
  locale formatting of a time stamp.
\<close>

record env =
  scan_directory_fast :: "string \<Rightarrow> string + entry list"
  scan_directory :: "string \<Rightarrow> string + entry list"
  delete_items :: "string list \<Rightarrow> string + unit"
  confirm :: bool
  date_now :: "nat \<Rightarrow> int"
  toLocaleString :: "int \<Rightarrow> string"

text \<open>
  The state both variants share. \<open>selectedItems\<close> is a JavaScript \<^verbatim>\<open>Set\<close>: its
  members in insertion order, without duplicates. \<open>alerts\<close> and \<open>invoked\<close> log what
  the handlers showed to the user and asked of the backend.
\<close>

record app =
  currentPath :: string
  items :: "entry list"
  isScanning :: bool
  selectedItems :: "string list"
  pathHistory :: "string list"
  stats :: scan_stats
  alerts :: "alert list"
  invoked :: "command list"

record basic_app = app +
  scanMode :: string

text \<open>
  A pending pre-cache timer holds what its callback closes over: the items of the scan
  that set it and the cache of the render that scan was started from.
\<close>

record prewarm_task =
  t_items :: "entry list"
  t_snapshot :: cache

record cached_app = app +
  scanCache :: cache
  progressPercent :: nat
  delete_history :: "delete_record list option"
  timers :: "prewarm_task list"
  clock_reads :: nat

section \<open>Selection\<close>

definition set_has :: "string list \<Rightarrow> string \<Rightarrow> bool" where
  "set_has s p = (p \<in> set s)"

definition set_delete :: "string list \<Rightarrow> string \<Rightarrow> string list" where
  "set_delete s p = removeAll p s"

definition set_add :: "string list \<Rightarrow> string \<Rightarrow> string list" where
  "set_add s p = (if p \<in> set s then s else s @ [p])"

definition toggleSelection :: "string \<Rightarrow> 'a app_scheme \<Rightarrow> 'a app_scheme" where
  "toggleSelection itemPath st =
     (let newSelected = selectedItems st
      in st\<lparr>selectedItems :=
             (if set_has newSelected itemPath then set_delete newSelected itemPath
              else set_add newSelected itemPath)\<rparr>)"

section \<open>Statistics and the result cache\<close>

text \<open>
  The sum of two numbers is the exact sum rounded to the nearest double, a tie going to
  the double with the even significand. A double has 53 significant bits:
  \<open>excess_bits n\<close> is the number of low bits of \<open>n\<close> beyond them, and an integer up
  to \<open>2 ^ 53 = 9007199254740992\<close> is its own rounding. The sums of sizes stay far
  below the largest double.
\<close>

function excess_bits :: "nat \<Rightarrow> nat" where
  "excess_bits n = (if n < 9007199254740992 then 0 else Suc (excess_bits (n div 2)))"
  by pat_completeness auto
termination
  by (relation "measure id") auto

declare excess_bits.simps [simp del]

definition round_double :: "nat \<Rightarrow> nat" where
  "round_double n =
     (let e = excess_bits n;
          q = n div 2 ^ e;
          r = n mod 2 ^ e
      in if e = 0 then n
         else if r < 2 ^ (e - 1) \<or> (r = 2 ^ (e - 1) \<and> even q) then q * 2 ^ e
         else (q + 1) * 2 ^ e)"

definition js_add :: "nat \<Rightarrow> nat \<Rightarrow> nat" where
  "js_add a b = round_double (a + b)"

text \<open>
  The statistics object built after every scan:
  \<^verbatim>\<open>{ count: result.items.length, totalSize: result.items.reduce((sum, item) => sum + item.size, 0) }\<close>.
\<close>

definition stats_of :: "entry list \<Rightarrow> scan_stats" where
  "stats_of result_items =
     \<lparr>count = length result_items,
      totalSize = foldl (\<lambda>sum item. js_add sum (size_bytes item)) 0 result_items\<rparr>"

text \<open>
  The cache is a plain object keyed by path. The source reads it with
  \<^verbatim>\<open>scanCache[p]\<close>, writes it with
  \<^verbatim>\<open>setScanCache(prev => ({ ...prev, [p]: { items, stats, timestamp } }))\<close> and removes a
  key with \<^verbatim>\<open>delete newCache[p]\<close> on a copy. Keys are file system paths, which are
  never names of properties inherited by every object.
\<close>

definition cache_get :: "cache \<Rightarrow> string \<Rightarrow> cache_entry option" where
  "cache_get prev p = prev p"

definition cache_put :: "cache \<Rightarrow> string \<Rightarrow> entry list \<Rightarrow> scan_stats \<Rightarrow> int \<Rightarrow> cache" where
  "cache_put prev p its sts t = prev(p \<mapsto> \<lparr>c_items = its, c_stats = sts, timestamp = t\<rparr>)"

definition cache_invalidate :: "cache \<Rightarrow> string \<Rightarrow> cache" where
  "cache_invalidate prev p = prev(p := None)"

section \<open>The cached variant\<close>

text \<open>JavaScript truthiness of a string argument.\<close>

definition truthy :: "string \<Rightarrow> bool" where
  "truthy s = (s \<noteq> [])"

text \<open>The \<^verbatim>\<open>finally\<close> block of a scan.\<close>

definition scan_finally :: "cached_app \<Rightarrow> cached_app" where
  "scan_finally st = st\<lparr>isScanning := False, progressPercent := 0\<rparr>"

text \<open>
  \<open>startScan\<close> reads \<^verbatim>\<open>scanCache\<close> from the render it was created in: \<open>snap\<close>.
  A caller that has just queued a cache update still passes the cache from before it.
  Progress events only move the progress display, which the \<^verbatim>\<open>finally\<close> block resets.
\<close>

definition startScan :: "cache \<Rightarrow> bool \<Rightarrow> env \<Rightarrow> cached_app \<Rightarrow> cached_app" where
  "startScan snap forceRefresh ev st =
     (if currentPath st = [] then st
      else case (if forceRefresh then None else cache_get snap (currentPath st)) of
        Some cached \<Rightarrow> st\<lparr>items := c_items cached, stats := c_stats cached\<rparr>
      | None \<Rightarrow>
         (let st1 = st\<lparr>isScanning := True, items := [], selectedItems := [],
                        progressPercent := 0\<rparr>;
              st2 = st1\<lparr>invoked := invoked st1 @ [ScanFast (currentPath st)]\<rparr>
          in scan_finally
            (case scan_directory_fast ev (currentPath st) of
               Inl err \<Rightarrow> st2\<lparr>alerts := alerts st2 @ [ScanFailed err]\<rparr>
             | Inr result_items \<Rightarrow>
                (let st3 = st2\<lparr>progressPercent := 100\<rparr>;
                     sts = stats_of result_items;
                     st4 = st3\<lparr>scanCache :=
                                  cache_put (scanCache st3) (currentPath st) result_items sts
                                    (date_now ev (clock_reads st3)),
                                clock_reads := Suc (clock_reads st3)\<rparr>;
                     st5 = st4\<lparr>timers := timers st4 @
                                  [\<lparr>t_items = result_items, t_snapshot = snap\<rparr>]\<rparr>
                 in st5\<lparr>items := result_items, stats := sts\<rparr>))))"

text \<open>
  The timer callback: the first five directories of the result, each scanned unless the
  cache the callback closes over already has it. A failed background scan is silent.
  The callback awaits its scans one after another; its guard reads the captured cache and
  its writes are updates of whatever the cache is by then, so it is modelled as one run.
\<close>

fun prewarm :: "env \<Rightarrow> cache \<Rightarrow> entry list \<Rightarrow> cached_app \<Rightarrow> cached_app" where
  "prewarm ev snap [] st = st"
| "prewarm ev snap (item # rest) st =
     prewarm ev snap rest
       (if cache_get snap (path item) = None then
          (let st1 = st\<lparr>invoked := invoked st @ [ScanFast (path item)]\<rparr>
           in case scan_directory_fast ev (path item) of
                Inl e \<Rightarrow> st1
              | Inr sub_items \<Rightarrow>
                  st1\<lparr>scanCache :=
                        cache_put (scanCache st1) (path item) sub_items (stats_of sub_items)
                          (date_now ev (clock_reads st1)),
                      clock_reads := Suc (clock_reads st1)\<rparr>)
        else st)"

definition topDirs :: "entry list \<Rightarrow> entry list" where
  "topDirs result_items = take 5 (filter is_directory result_items)"

definition run_timer :: "env \<Rightarrow> prewarm_task \<Rightarrow> cached_app \<Rightarrow> cached_app" where
  "run_timer ev task st = prewarm ev (t_snapshot task) (topDirs (t_items task)) st"

text \<open>The oldest pending timer fires.\<close>

definition fire_timer :: "env \<Rightarrow> cached_app \<Rightarrow> cached_app" where
  "fire_timer ev st =
     (case timers st of
        [] \<Rightarrow> st
      | task # rest \<Rightarrow> run_timer ev task (st\<lparr>timers := rest\<rparr>))"

definition enterDirectory :: "entry \<Rightarrow> env \<Rightarrow> cached_app \<Rightarrow> cached_app" where
  "enterDirectory item ev st =
     (if \<not> is_directory item then st
      else
        (let st1 = st\<lparr>pathHistory := pathHistory st @ [currentPath st],
                       currentPath := path item\<rparr>
         in case cache_get (scanCache st) (path item) of
              Some cached \<Rightarrow> st1\<lparr>items := c_items cached, stats := c_stats cached\<rparr>
            | None \<Rightarrow>
               (let st2 = st1\<lparr>isScanning := True, progressPercent := 0\<rparr>;
                    st3 = st2\<lparr>invoked := invoked st2 @ [ScanFast (path item)]\<rparr>
                in scan_finally
                  (case scan_directory_fast ev (path item) of
                     Inl err \<Rightarrow> st3
                   | Inr result_items \<Rightarrow>
                      (let st4 = st3\<lparr>progressPercent := 100\<rparr>;
                           sts = stats_of result_items;
                           st5 = st4\<lparr>scanCache :=
                                        cache_put (scanCache st4) (path item) result_items sts
                                          (date_now ev (clock_reads st4)),
                                      clock_reads := Suc (clock_reads st4)\<rparr>
                       in st5\<lparr>items := result_items, stats := sts\<rparr>)))))"

definition goBack :: "cached_app \<Rightarrow> cached_app" where
  "goBack st =
     (if length (pathHistory st) = 0 then st
      else
        (let newHistory = butlast (pathHistory st);
             lastPath = last (pathHistory st);
             st1 = st\<lparr>pathHistory := newHistory, currentPath := lastPath\<rparr>
         in case cache_get (scanCache st) lastPath of
              Some cached \<Rightarrow> st1\<lparr>items := c_items cached, stats := c_stats cached\<rparr>
            | None \<Rightarrow> st1))"

text \<open>
  The history part of a deletion: each deleted item is put at the front of the stored
  list with \<^verbatim>\<open>unshift\<close> (all with one time stamp), and \<^verbatim>\<open>splice(100)\<close> cuts the
  list when it has become longer than 100.
\<close>

definition make_record :: "env \<Rightarrow> int \<Rightarrow> entry \<Rightarrow> delete_record" where
  "make_record ev t item =
     \<lparr>path = path item, name = name item, size_bytes = size_bytes item,
      is_directory = is_directory item,
      deleted_at = t, deleted_at_readable = toLocaleString ev t\<rparr>"

definition save_history ::
  "env \<Rightarrow> int \<Rightarrow> entry list \<Rightarrow> delete_record list option \<Rightarrow> delete_record list" where
  "save_history ev t toDelete stored =
     (let deleteHistory =
            foldl (\<lambda>h item. make_record ev t item # h)
              (case stored of None \<Rightarrow> [] | Some h \<Rightarrow> h) toDelete
      in if length deleteHistory > 100 then take 100 deleteHistory else deleteHistory)"

text \<open>
  The items a deletion records: for each selected path, in the order of the selection,
  the first of the shown items with that path; a selected path that no shown item has is
  dropped (\<^verbatim>\<open>.filter(Boolean)\<close>).
\<close>

definition itemsToDelete :: "entry list \<Rightarrow> string list \<Rightarrow> entry list" where
  "itemsToDelete its selected = List.map_filter (\<lambda>p. find (\<lambda>i. path i = p) its) selected"

text \<open>
  \<open>deleteSelected\<close> calls \<^verbatim>\<open>startScan('fast', true)\<close>: the first argument, a non-empty
  string, is what \<open>startScan\<close> takes as \<^verbatim>\<open>forceRefresh\<close>. The text of the confirmation
  dialog is display only; \<open>confirm ev\<close> is the user's answer.
\<close>

definition deleteSelected :: "env \<Rightarrow> cached_app \<Rightarrow> cached_app" where
  "deleteSelected ev st =
     (if length (selectedItems st) = 0 then st
      else
        (let toDelete = itemsToDelete (items st) (selectedItems st)
         in if \<not> confirm ev then st
            else
              (let pathsToDelete = selectedItems st;
                   st1 = st\<lparr>invoked := invoked st @ [DeleteItems pathsToDelete]\<rparr>
               in case delete_items ev pathsToDelete of
                    Inl err \<Rightarrow> st1\<lparr>alerts := alerts st1 @ [DeleteFailed err]\<rparr>
                  | Inr _ \<Rightarrow>
                     (let t = date_now ev (clock_reads st1);
                          st2 = st1\<lparr>delete_history :=
                                       Some (save_history ev t toDelete (delete_history st1)),
                                     clock_reads := Suc (clock_reads st1)\<rparr>;
                          st3 = st2\<lparr>selectedItems := []\<rparr>;
                          st4 = st3\<lparr>scanCache :=
                                       cache_invalidate (scanCache st3) (currentPath st)\<rparr>;
                          st5 = startScan (scanCache st) (truthy ''fast'') ev st4
                      in st5\<lparr>alerts := alerts st5 @ [DeleteOk]\<rparr>))))"

text \<open>The scan button drops the cache entry of the current path and forces a scan.\<close>

definition scanClicked :: "env \<Rightarrow> cached_app \<Rightarrow> cached_app" where
  "scanClicked ev st =
     startScan (scanCache st) True ev
       (st\<lparr>scanCache := cache_invalidate (scanCache st) (currentPath st)\<rparr>)"

section \<open>The basic variant\<close>

text \<open>
  \<^verbatim>\<open>src/unnamed/part_001\<close> and \<^verbatim>\<open>src/src/App-Bubble.jsx\<close>: no cache, no history, and
  a scan mode that selects the backend command.
\<close>

definition scan_command :: "string \<Rightarrow> string \<Rightarrow> command" where
  "scan_command mode p = (if mode = ''fast'' then ScanFast p else ScanFull p)"

definition run_scan :: "env \<Rightarrow> string \<Rightarrow> string \<Rightarrow> string + entry list" where
  "run_scan ev mode p =
     (if mode = ''fast'' then scan_directory_fast ev p else scan_directory ev p)"

definition startScan_basic :: "string \<Rightarrow> env \<Rightarrow> basic_app \<Rightarrow> basic_app" where
  "startScan_basic mode ev st =
     (if currentPath st = [] then st
      else
        (let st1 = st\<lparr>isScanning := True, items := [], selectedItems := []\<rparr>;
             st2 = st1\<lparr>invoked := invoked st1 @ [scan_command mode (currentPath st)]\<rparr>;
             st3 = (case run_scan ev mode (currentPath st) of
                      Inl err \<Rightarrow> st2\<lparr>alerts := alerts st2 @ [ScanFailed err]\<rparr>
                    | Inr result_items \<Rightarrow>
                        st2\<lparr>items := result_items, stats := stats_of result_items\<rparr>)
         in st3\<lparr>isScanning := False\<rparr>))"



definition deleteSelected_basic :: "env \<Rightarrow> basic_app \<Rightarrow> basic_app" where
  "deleteSelected_basic ev st =
     (if length (selectedItems st) = 0 then st
      else if \<not> confirm ev then st
      else
        (let pathsToDelete = selectedItems st;
             st1 = st\<lparr>invoked := invoked st @ [DeleteItems pathsToDelete]\<rparr>
         in case delete_items ev pathsToDelete of
              Inl err \<Rightarrow> st1\<lparr>alerts := alerts st1 @ [DeleteFailed err]\<rparr>
            | Inr _ \<Rightarrow>
               (let st2 = st1\<lparr>alerts := alerts st1 @ [DeleteOk]\<rparr>;
                    st3 = st2\<lparr>selectedItems := []\<rparr>
                in startScan_basic (scanMode st) ev st3)))"

section \<open>Presentation\<close>

text \<open>
  What each view renders of \<open>items\<close>. The list panel of the cached variant sorts a
  copy with the comparator \<^verbatim>\<open>(a, b) => b.size - a.size\<close> (the sort of an array is
  stable) and shows the first ten. The three bubble rings of both bubble views, the list
  panel of \<^verbatim>\<open>App-Bubble.jsx\<close> and the table of \<^verbatim>\<open>part_001\<close> take \<open>items\<close> as
  stored.
\<close>

definition sort_by_size_desc :: "entry list \<Rightarrow> entry list" where
  "sort_by_size_desc its = sort_key (\<lambda>i. - int (size_bytes i)) its"









text \<open>Descending by size: each presented entry is at least as large as the next.\<close>

definition descending :: "entry list \<Rightarrow> bool" where
  "descending its = sorted_wrt (\<lambda>a b. size_bytes a \<ge> size_bytes b) its"

section \<open>The remaining handlers and the event loop\<close>

definition selectDirectory :: "string option \<Rightarrow> 'a app_scheme \<Rightarrow> 'a app_scheme" where
  "selectDirectory selected st =
     (case selected of
        None \<Rightarrow> st
      | Some p \<Rightarrow> if truthy p then st\<lparr>currentPath := p, pathHistory := []\<rparr> else st)"

text \<open>
  The stored history as the history panel reads it:
  \<^verbatim>\<open>JSON.parse(localStorage.getItem('delete-history') || '[]')\<close>.
\<close>

definition getDeleteHistory :: "delete_record list option \<Rightarrow> delete_record list" where
  "getDeleteHistory stored = (case stored of None \<Rightarrow> [] | Some h \<Rightarrow> h)"

definition clearDeleteHistory :: "env \<Rightarrow> cached_app \<Rightarrow> cached_app" where
  "clearDeleteHistory ev st =
     (if confirm ev then st\<lparr>delete_history := None, alerts := alerts st @ [HistoryCleared]\<rparr>
      else st)"

text \<open>What the user and the timer can make the cached variant do, one handler at a time.\<close>

datatype event =
    SelectDirectory "string option"
  | ScanClicked
  | EnterDirectory entry
  | GoBack
  | ToggleSelection string
  | DeleteSelected
  | ClearDeleteHistory
  | TimerFired

fun step :: "cached_app \<Rightarrow> env \<times> event \<Rightarrow> cached_app" where
  "step st (ev, SelectDirectory selected) = selectDirectory selected st"
| "step st (ev, ScanClicked) = scanClicked ev st"
| "step st (ev, EnterDirectory item) = enterDirectory item ev st"
| "step st (ev, GoBack) = goBack st"
| "step st (ev, ToggleSelection p) = toggleSelection p st"
| "step st (ev, DeleteSelected) = deleteSelected ev st"
| "step st (ev, ClearDeleteHistory) = clearDeleteHistory ev st"
| "step st (ev, TimerFired) = fire_timer ev st"

definition run :: "cached_app \<Rightarrow> (env \<times> event) list \<Rightarrow> cached_app" where
  "run st evs = foldl step st evs"

text \<open>
  The state after mounting: the defaults of \<^verbatim>\<open>useState\<close>, the path set by the
  initialising effect, and whatever history an earlier session left in local storage.
\<close>

definition initial :: "delete_record list option \<Rightarrow> cached_app" where
  "initial stored =
     \<lparr>currentPath = ''/Users'', items = [], isScanning = False, selectedItems = [],
      pathHistory = [], stats = \<lparr>count = 0, totalSize = 0\<rparr>, alerts = [], invoked = [],
      scanCache = Map.empty, progressPercent = 0, delete_history = stored, timers = [],
      clock_reads = 0\<rparr>"

text \<open>
  A sequence of successful deletions as the history sees it: each deletion is the time
  stamp it read and the items it recorded, in the order it recorded them.
\<close>

fun history_after ::
  "env \<Rightarrow> (int \<times> entry list) list \<Rightarrow> delete_record list option \<Rightarrow> delete_record list option"
where
  "history_after ev [] stored = stored"
| "history_after ev ((t, batch) # rest) stored =
     history_after ev rest (Some (save_history ev t batch stored))"

definition all_records :: "env \<Rightarrow> (int \<times> entry list) list \<Rightarrow> delete_record list" where
  "all_records ev deletions = concat (map (\<lambda>(t, batch). map (make_record ev t) batch) deletions)"

text \<open>Sequences of cache writes, to speak about what lies between a put and a get.\<close>

datatype cache_op =
    Put string "entry list" scan_stats int
  | Invalidate string

fun op_key :: "cache_op \<Rightarrow> string" where
  "op_key (Put p its sts t) = p"
| "op_key (Invalidate p) = p"

fun apply_op :: "cache \<Rightarrow> cache_op \<Rightarrow> cache" where
  "apply_op c (Put p its sts t) = cache_put c p its sts t"
| "apply_op c (Invalidate p) = cache_invalidate c p"

text \<open>The paths the timer callback scans: the top directories its snapshot lacks.\<close>

definition prewarm_targets :: "cache \<Rightarrow> entry list \<Rightarrow> string list" where
  "prewarm_targets snap result_items =
     map path (filter (\<lambda>item. cache_get snap (path item) = None) (topDirs result_items))"








section \<open>A sample directory\<close>

text \<open>
  A root \<^verbatim>\<open>/data\<close> with three directories: \<^verbatim>\<open>a\<close> holds two files of 200 and 100
  bytes, \<^verbatim>\<open>c\<close> holds one file of 50 bytes, \<^verbatim>\<open>b\<close> cannot be read. The backend
  returns entries in descending size order. The user confirms every dialog and the
  backend deletes what it is asked to.
\<close>

definition mk_entry :: "string \<Rightarrow> string \<Rightarrow> nat \<Rightarrow> bool \<Rightarrow> entry" where
  "mk_entry p n s d =
     \<lparr>path = p, name = n, size_bytes = s, is_directory = d, item_count = None, error = None\<rparr>"

definition sample_items :: "entry list" where
  "sample_items =
     [mk_entry ''/data/a'' ''a'' 300 True,
      mk_entry ''/data/c'' ''c'' 50 True,
      (mk_entry ''/data/b'' ''b'' 0 True)\<lparr>error := Some ''permission denied''\<rparr>]"

definition sample_scan :: "string \<Rightarrow> string + entry list" where
  "sample_scan p =
     (if p = ''/data'' then Inr sample_items
      else if p = ''/data/a'' then
        Inr [mk_entry ''/data/a/x'' ''x'' 200 False, mk_entry ''/data/a/y'' ''y'' 100 False]
      else if p = ''/data/c'' then Inr [mk_entry ''/data/c/z'' ''z'' 50 False]
      else Inl ''cannot read directory'')"

definition sample_env :: env where
  "sample_env =
     \<lparr>scan_directory_fast = sample_scan, scan_directory = sample_scan,
      delete_items = (\<lambda>paths. Inr ()), confirm = True,
      date_now = (\<lambda>n. 1000 + int n), toLocaleString = (\<lambda>t. ''some time'')\<rparr>"

definition sample_start :: cached_app where
  "sample_start = (initial None)\<lparr>currentPath := ''/data''\<rparr>"

definition sample_loaded :: cached_app where
  "sample_loaded = scanClicked sample_env sample_start"

text \<open>
  The user picks another root without scanning it and then opens \<^verbatim>\<open>a\<close> from the
  items still on display: the path history now ends in a path that was never scanned.
\<close>

definition sample_moved :: cached_app where
  "sample_moved =
     enterDirectory (sample_items ! 0) sample_env
       (selectDirectory (Some ''/other'') sample_loaded)"

text \<open>
  Scanning the sample root, selecting \<^verbatim>\<open>a\<close> and deleting it; and 150 deletions of one
  file each, the \<open>n\<close>-th at time \<open>n\<close>.
\<close>

definition sample_deletion :: "(env \<times> event) list" where
  "sample_deletion =
     [(sample_env, ScanClicked), (sample_env, ToggleSelection ''/data/a''),
      (sample_env, DeleteSelected)]"

definition numbered_file :: "nat \<Rightarrow> entry" where
  "numbered_file n = mk_entry ''/data/f'' ''f'' n False"

definition sequential_deletions :: "nat \<Rightarrow> (int \<times> entry list) list" where
  "sequential_deletions k = map (\<lambda>n. (int n, [numbered_file n])) [0..<k]"

text \<open>
  The sample root with \<^verbatim>\<open>a\<close> selected; the same selection carried into
  \<^verbatim>\<open>c\<close>, since entering a directory does not clear the selection; and the root
  picked again in the directory dialog, which sets the current path and scans nothing,
  so that the one file of \<^verbatim>\<open>c\<close> is still on display.
\<close>

definition sample_selected :: cached_app where
  "sample_selected = toggleSelection ''/data/a'' sample_loaded"

definition sample_elsewhere :: cached_app where
  "sample_elsewhere = enterDirectory (sample_items ! 1) sample_env sample_selected"

text \<open>The sample root after its pre-cache timer has fired.\<close>

definition sample_warm :: cached_app where
  "sample_warm = fire_timer sample_env sample_loaded"

text \<open>
  A root with six directories in descending size, each of them empty, scanned twice with
  the timer firing after each scan.
\<close>

definition six_dirs :: "entry list" where
  "six_dirs =
     [mk_entry ''/r/d1'' ''d1'' 60 True, mk_entry ''/r/d2'' ''d2'' 50 True,
      mk_entry ''/r/d3'' ''d3'' 40 True, mk_entry ''/r/d4'' ''d4'' 30 True,
      mk_entry ''/r/d5'' ''d5'' 20 True, mk_entry ''/r/d6'' ''d6'' 10 True]"

definition six_env :: env where
  "six_env =
     sample_env\<lparr>scan_directory_fast := (\<lambda>p. if p = ''/r'' then Inr six_dirs else Inr [])\<rparr>"

definition six_start :: cached_app where
  "six_start = (initial None)\<lparr>currentPath := ''/r''\<rparr>"

definition six_warm :: cached_app where
  "six_warm = fire_timer six_env (scanClicked six_env six_start)"

definition six_events :: "(env \<times> event) list" where
  "six_events =
     [(six_env, ScanClicked), (six_env, TimerFired), (six_env, ScanClicked),
      (six_env, TimerFired)]"

definition sample_reselected :: cached_app where
  "sample_reselected = selectDirectory (Some ''/data'') sample_elsewhere"

text \<open>The sample root with \<^verbatim>\<open>a\<close> selected, after a failed attempt to open \<^verbatim>\<open>b\<close>.\<close>

definition sample_failed_enter :: cached_app where
  "sample_failed_enter = enterDirectory (sample_items ! 2) sample_env sample_selected"

definition sample_reselection :: "(env \<times> event) list" where
  "sample_reselection =
     [(sample_env, ScanClicked), (sample_env, ToggleSelection ''/data/a''),
      (sample_env, EnterDirectory (sample_items ! 1)),
      (sample_env, SelectDirectory (Some ''/data''))]"




definition initial_basic :: "string \<Rightarrow> basic_app" where
  "initial_basic home =
     \<lparr>currentPath = home, items = [], isScanning = False, selectedItems = [],
      pathHistory = [], stats = \<lparr>count = 0, totalSize = 0\<rparr>, alerts = [], invoked = [],
      scanMode = ''fast''\<rparr>"

section \<open>Selection toggling\<close>

lemma set_toggle:
  "set (selectedItems (toggleSelection p st)) =
     (if p \<in> set (selectedItems st) then set (selectedItems st) - {p}
      else insert p (set (selectedItems st)))"
  by (simp add: toggleSelection_def set_has_def set_delete_def set_add_def Let_def)

lemma toggle_frame:
  "toggleSelection p st = st\<lparr>selectedItems := selectedItems (toggleSelection p st)\<rparr>"
  by (simp add: toggleSelection_def Let_def)

text \<open>
  C10. Toggling a path adds it to the selection when it was absent and removes it when it
  was present, every other member and every other field of the state staying as it
  was; toggling the same path twice gives back the same selection set.
\<close>

theorem toggleSelection_involution:
  "set (selectedItems (toggleSelection p st)) =
     (if p \<in> set (selectedItems st) then set (selectedItems st) - {p}
      else insert p (set (selectedItems st)))
   \<and> toggleSelection p st = st\<lparr>selectedItems := selectedItems (toggleSelection p st)\<rparr>
   \<and> set (selectedItems (toggleSelection p (toggleSelection p st))) = set (selectedItems st)"
proof -
  have twice: "set (selectedItems (toggleSelection p (toggleSelection p st)))
                 = set (selectedItems st)"
    unfolding set_toggle by auto
  show ?thesis
    using set_toggle [of p st] toggle_frame [of p st] twice by simp
qed

section \<open>What one scan does\<close>

lemma round_double_small: "n \<le> 9007199254740992 \<Longrightarrow> round_double n = n"
proof (cases "n = 9007199254740992")
  case True
  have "excess_bits 9007199254740992 = 1"
    by (simp add: excess_bits.simps)
  then show ?thesis
    by (simp add: True round_double_def Let_def)
next
  case False
  assume "n \<le> 9007199254740992"
  with False have "n < 9007199254740992" by simp
  then have "excess_bits n = 0"
    by (subst excess_bits.simps) simp
  then show ?thesis
    by (simp add: round_double_def)
qed

lemma foldl_size:
  "a + sum_list (map size_bytes its) \<le> 9007199254740992 \<Longrightarrow>
   foldl (\<lambda>sum item. js_add sum (size_bytes item)) a its = a + sum_list (map size_bytes its)"
  by (induction its arbitrary: a) (simp_all add: js_add_def round_double_small add.assoc)


lemma stats_of_sum:
  "sum_list (map size_bytes its) \<le> 9007199254740992 \<Longrightarrow>
   stats_of its = \<lparr>count = length its, totalSize = sum_list (map size_bytes its)\<rparr>"
  by (simp add: stats_of_def foldl_size)


lemma startScan_success:
  assumes "currentPath st \<noteq> []" and "forceRefresh \<or> cache_get snap (currentPath st) = None"
    and "scan_directory_fast ev (currentPath st) = Inr its"
  shows "startScan snap forceRefresh ev st =
           st\<lparr>isScanning := False, items := its, selectedItems := [], progressPercent := 0,
              invoked := invoked st @ [ScanFast (currentPath st)],
              scanCache := cache_put (scanCache st) (currentPath st) its (stats_of its)
                             (date_now ev (clock_reads st)),
              clock_reads := Suc (clock_reads st),
              timers := timers st @ [\<lparr>t_items = its, t_snapshot = snap\<rparr>],
              stats := stats_of its\<rparr>"
  using assms by (auto simp: startScan_def scan_finally_def Let_def)

lemma startScan_failure:
  assumes "currentPath st \<noteq> []" and "forceRefresh \<or> cache_get snap (currentPath st) = None"
    and "scan_directory_fast ev (currentPath st) = Inl err"
  shows "startScan snap forceRefresh ev st =
           st\<lparr>isScanning := False, items := [], selectedItems := [], progressPercent := 0,
              invoked := invoked st @ [ScanFast (currentPath st)],
              alerts := alerts st @ [ScanFailed err]\<rparr>"
  using assms by (auto simp: startScan_def scan_finally_def Let_def)




lemma enterDirectory_failure:
  assumes "is_directory item" and "cache_get (scanCache st) (path item) = None"
    and "scan_directory_fast ev (path item) = Inl err"
  shows "enterDirectory item ev st =
           st\<lparr>pathHistory := pathHistory st @ [currentPath st], currentPath := path item,
              isScanning := False, progressPercent := 0,
              invoked := invoked st @ [ScanFast (path item)]\<rparr>"
  using assms by (simp add: enterDirectory_def scan_finally_def Let_def)





text \<open>The sample root after the scan button: the three entries, 350 bytes in all.\<close>

lemma sample_stats: "stats_of sample_items = \<lparr>count = 3, totalSize = 350\<rparr>"
  by (subst stats_of_sum) (simp_all add: sample_items_def mk_entry_def)

lemma sample_loaded_eq:
  "sample_loaded =
     sample_start\<lparr>isScanning := False, items := sample_items, selectedItems := [],
       progressPercent := 0, invoked := [ScanFast ''/data''],
       scanCache := cache_put Map.empty ''/data'' sample_items (stats_of sample_items) 1000,
       clock_reads := Suc 0,
       timers := [\<lparr>t_items = sample_items, t_snapshot = Map.empty\<rparr>],
       stats := stats_of sample_items\<rparr>"
proof -
  let ?st = "sample_start\<lparr>scanCache := cache_invalidate (scanCache sample_start)
                                         (currentPath sample_start)\<rparr>"
  have p: "currentPath ?st \<noteq> []" by (simp add: sample_start_def initial_def)
  have s: "scan_directory_fast sample_env (currentPath ?st) = Inr sample_items"
    by (simp add: sample_start_def initial_def sample_env_def sample_scan_def)
  have "sample_loaded = startScan (scanCache sample_start) True sample_env ?st"
    by (simp add: sample_loaded_def scanClicked_def)
  also note startScan_success [OF p _ s, of True "scanCache sample_start"]
  finally show ?thesis
    by (simp add: sample_start_def initial_def sample_env_def cache_invalidate_def)
qed

section \<open>A scan that fails\<close>

text \<open>
  C7. The specification has every scan that fails end with no items shown, no cache
  entry written and exactly one error message. \<open>startScan\<close> does so. Entering the
  unreadable directory \<^verbatim>\<open>b\<close> of the sample also asks the backend for a scan, which
  fails: the current path becomes \<^verbatim>\<open>/data/b\<close>, the three items of the parent stay on
  display and no alert is raised, whereas \<open>startScan\<close> at that same path empties the
  list and raises the one alert.
\<close>

theorem enterDirectory_failed_scan_keeps_items:
  "is_directory (sample_items ! 2) \<and> path (sample_items ! 2) = ''/data/b''
   \<and> scan_directory_fast sample_env ''/data/b'' = Inl ''cannot read directory''
   \<and> invoked (enterDirectory (sample_items ! 2) sample_env sample_loaded)
       = [ScanFast ''/data'', ScanFast ''/data/b'']
   \<and> currentPath (enterDirectory (sample_items ! 2) sample_env sample_loaded) = ''/data/b''
   \<and> items (enterDirectory (sample_items ! 2) sample_env sample_loaded) = sample_items
   \<and> length sample_items = 3
   \<and> alerts (enterDirectory (sample_items ! 2) sample_env sample_loaded) = []
   \<and> items (startScan Map.empty True sample_env (sample_loaded\<lparr>currentPath := ''/data/b''\<rparr>))
       = []
   \<and> alerts (startScan Map.empty True sample_env (sample_loaded\<lparr>currentPath := ''/data/b''\<rparr>))
       = [ScanFailed ''cannot read directory'']"
proof -
  have d: "is_directory (sample_items ! 2)" and p: "path (sample_items ! 2) = ''/data/b''"
    and l: "length sample_items = 3"
    by (simp_all add: sample_items_def mk_entry_def)
  have s: "scan_directory_fast sample_env ''/data/b'' = Inl ''cannot read directory''"
    by (simp add: sample_env_def sample_scan_def)
  have m: "cache_get (scanCache sample_loaded) (path (sample_items ! 2)) = None"
    unfolding p by (simp add: sample_loaded_eq cache_get_def cache_put_def)
  have a: "alerts sample_loaded = []" "items sample_loaded = sample_items"
      "invoked sample_loaded = [ScanFast ''/data'']"
    by (simp_all add: sample_loaded_eq sample_start_def initial_def)
  have e: "enterDirectory (sample_items ! 2) sample_env sample_loaded
             = sample_loaded\<lparr>pathHistory := pathHistory sample_loaded @ [currentPath sample_loaded],
                 currentPath := ''/data/b'', isScanning := False, progressPercent := 0,
                 invoked := invoked sample_loaded @ [ScanFast ''/data/b'']\<rparr>"
    using enterDirectory_failure [OF d m, of sample_env "''cannot read directory''"] s
    by (simp add: p)
  let ?st = "sample_loaded\<lparr>currentPath := ''/data/b''\<rparr>"
  have f: "startScan Map.empty True sample_env ?st
             = ?st\<lparr>isScanning := False, items := [], selectedItems := [], progressPercent := 0,
                  invoked := invoked ?st @ [ScanFast (currentPath ?st)],
                  alerts := alerts ?st @ [ScanFailed ''cannot read directory'']\<rparr>"
    by (rule startScan_failure) (simp_all add: s)
  show ?thesis
    unfolding e f by (simp add: d p l s a)
qed

section \<open>Deleting with nothing selected, going back without a cache entry\<close>

lemmas sample_defs = sample_loaded_eq enterDirectory_def selectDirectory_def truthy_def
  scan_finally_def Let_def sample_start_def initial_def sample_items_def mk_entry_def
  sample_env_def sample_scan_def cache_get_def cache_put_def

text \<open>
  C9. With an empty selection, the delete handler of either variant returns the state it
  was given: the backend is not called, and items, statistics, cache and deletion
  history are what they were.
\<close>

theorem deleteSelected_nothing_selected:
  assumes "selectedItems st = []" and "selectedItems bst = []"
  shows "deleteSelected ev st = st \<and> deleteSelected_basic ev bst = bst"
  using assms by (simp add: deleteSelected_def deleteSelected_basic_def)

theorem deleteSelected_nothing_selected_witness:
  "selectedItems sample_loaded = [] \<and> selectedItems (initial_basic ''/data'') = []
   \<and> deleteSelected sample_env sample_loaded = sample_loaded
   \<and> deleteSelected_basic sample_env (initial_basic ''/data'') = initial_basic ''/data''"
proof -
  have a: "selectedItems sample_loaded = []"
    by (simp add: sample_loaded_eq)
  have b: "selectedItems (initial_basic ''/data'') = []"
    by (simp add: initial_basic_def)
  show ?thesis
    using deleteSelected_nothing_selected [OF a b, of sample_env] a b by simp
qed

text \<open>
  C8. In the cached variant, going back with a non-empty path history whose last path
  has no cache entry changes the current path and the path history and nothing else:
  items and statistics stay those of the directory shown before, the backend is not
  asked for a scan and no alert is raised.
\<close>

theorem goBack_without_cache_entry:
  assumes "pathHistory st \<noteq> []"
    and "cache_get (scanCache st) (last (pathHistory st)) = None"
  shows "goBack st = st\<lparr>pathHistory := butlast (pathHistory st),
                        currentPath := last (pathHistory st)\<rparr>"
  using assms by (simp add: goBack_def Let_def)

lemma sample_moved_history: "pathHistory sample_moved = [''/other'']"
  by (simp add: sample_moved_def sample_defs)

lemma sample_moved_cache: "cache_get (scanCache sample_moved) ''/other'' = None"
  by (simp add: sample_moved_def sample_defs)

theorem goBack_without_cache_entry_witness:
  "pathHistory sample_moved \<noteq> []
   \<and> cache_get (scanCache sample_moved) (last (pathHistory sample_moved)) = None
   \<and> items (goBack sample_moved) = items sample_moved
   \<and> stats (goBack sample_moved) = stats sample_moved
   \<and> invoked (goBack sample_moved) = invoked sample_moved
   \<and> alerts (goBack sample_moved) = alerts sample_moved
   \<and> currentPath (goBack sample_moved) = ''/other''
   \<and> pathHistory (goBack sample_moved) = []"
proof -
  have h: "pathHistory sample_moved \<noteq> []"
    by (simp add: sample_moved_history)
  have c: "cache_get (scanCache sample_moved) (last (pathHistory sample_moved)) = None"
    by (simp add: sample_moved_history sample_moved_cache)
  show ?thesis
    using goBack_without_cache_entry [OF h c] h c by (simp add: sample_moved_history)
qed

section \<open>The deletion history\<close>

lemma foldl_unshift: "foldl (\<lambda>h item. f item # h) h0 xs = rev (map f xs) @ h0"
  by (induction xs arbitrary: h0) auto

lemma save_history_eq:
  "save_history ev t batch stored =
     take 100 (rev (map (make_record ev t) batch) @ getDeleteHistory stored)"
  by (simp add: save_history_def getDeleteHistory_def foldl_unshift Let_def)

lemma save_history_length: "length (save_history ev t batch stored) \<le> 100"
  by (simp add: save_history_eq)

lemma take_append_take: "take n (xs @ take n ys) = take n (xs @ ys)"
  by (simp add: min_def)

lemma all_records_Cons:
  "all_records ev ((t, batch) # ds) = map (make_record ev t) batch @ all_records ev ds"
  by (simp add: all_records_def)

lemma history_after_eq:
  "length (getDeleteHistory stored) \<le> 100 \<Longrightarrow>
   getDeleteHistory (history_after ev ds stored)
     = take 100 (rev (all_records ev ds) @ getDeleteHistory stored)"
proof (induction ds arbitrary: stored)
  case Nil
  then show ?case by (simp add: all_records_def)
next
  case (Cons d ds)
  obtain t batch where d: "d = (t, batch)" by (cases d)
  let ?new = "save_history ev t batch stored"
  have new: "getDeleteHistory (Some ?new)
               = take 100 (rev (map (make_record ev t) batch) @ getDeleteHistory stored)"
    by (simp add: getDeleteHistory_def save_history_eq)
  have "length (getDeleteHistory (Some ?new)) \<le> 100"
    unfolding new by simp
  from Cons.IH [OF this]
  have "getDeleteHistory (history_after ev (d # ds) stored)
          = take 100 (rev (all_records ev ds) @ getDeleteHistory (Some ?new))"
    by (simp add: d)
  also have "\<dots> = take 100 (rev (all_records ev ds) @ rev (map (make_record ev t) batch)
                        @ getDeleteHistory stored)"
    unfolding new by (rule take_append_take)
  also have "\<dots> = take 100 (rev (all_records ev (d # ds)) @ getDeleteHistory stored)"
    by (simp add: d all_records_Cons)
  finally show ?case .
qed

lemma history_after_fresh:
  "getDeleteHistory (history_after ev ds None) = take 100 (rev (all_records ev ds))"
  using history_after_eq [of None ev ds] by (simp add: getDeleteHistory_def)

text \<open>Only a deletion and the clearing of the history write the stored history.\<close>

lemma startScan_history [simp]:
  "delete_history (startScan snap f ev st) = delete_history st"
  by (simp add: startScan_def scan_finally_def Let_def split: option.splits sum.splits)

lemma prewarm_history [simp]:
  "delete_history (prewarm ev snap ds st) = delete_history st"
  by (induction ds arbitrary: st) (simp_all add: Let_def split: sum.splits)

lemma deleteSelected_history:
  "delete_history (deleteSelected ev st) = delete_history st \<or>
   delete_history (deleteSelected ev st) =
     Some (save_history ev (date_now ev (clock_reads st))
            (itemsToDelete (items st) (selectedItems st)) (delete_history st))"
  by (simp add: deleteSelected_def Let_def split: sum.splits)

lemma step_history_bound:
  assumes "length (getDeleteHistory (delete_history st)) \<le> 100"
  shows "length (getDeleteHistory (delete_history (step st e))) \<le> 100"
proof -
  obtain ev a where e: "e = (ev, a)" by (cases e)
  show ?thesis
  proof (cases a)
    case DeleteSelected
    then show ?thesis
      using assms deleteSelected_history [of ev st] save_history_length
      by (auto simp: e getDeleteHistory_def)
  next
    case ClearDeleteHistory
    then show ?thesis
      using assms by (simp add: e clearDeleteHistory_def getDeleteHistory_def)
  next
    case TimerFired
    then show ?thesis
      using assms by (simp add: e fire_timer_def run_timer_def split: list.splits)
  next
    case (EnterDirectory item)
    then show ?thesis
      using assms
      by (simp add: e enterDirectory_def scan_finally_def Let_def
          split: option.splits sum.splits)
  qed (use assms in \<open>simp_all add: e selectDirectory_def scanClicked_def goBack_def
         toggleSelection_def Let_def split: option.splits\<close>)
qed

lemma run_history_bound:
  "length (getDeleteHistory (delete_history st)) \<le> 100 \<Longrightarrow>
   length (getDeleteHistory (delete_history (run st evs))) \<le> 100"
  unfolding run_def
  by (induction evs arbitrary: st) (simp_all add: step_history_bound)

text \<open>
  C1. Starting from a stored history of at most 100 records, every sequence of handler
  runs leaves at most 100 records stored. One deletion stores either nothing new or the
  records of its batch, last recorded first, in front of the old records, cut to 100.
  Hence after any sequence of deletions into an empty store the history is the 100 most
  recently recorded records, newest first, and its length is the number of records when
  that is below 100 and 100 otherwise.
\<close>

theorem delete_history_bounded_newest_first:
  assumes "length (getDeleteHistory (delete_history st)) \<le> 100"
  shows "length (getDeleteHistory (delete_history (run st evs))) \<le> 100
       \<and> delete_history (deleteSelected ev st)
           \<in> {delete_history st,
              Some (save_history ev (date_now ev (clock_reads st))
                     (itemsToDelete (items st) (selectedItems st)) (delete_history st))}
       \<and> save_history ev t batch stored
           = take 100 (rev (map (make_record ev t) batch) @ getDeleteHistory stored)
       \<and> length (save_history ev t batch stored) \<le> 100
       \<and> getDeleteHistory (history_after ev ds None) = take 100 (rev (all_records ev ds))
       \<and> length (getDeleteHistory (history_after ev ds None))
           = min 100 (length (all_records ev ds))"
  using run_history_bound [OF assms, of evs] deleteSelected_history [of ev st]
  by (auto simp: save_history_eq history_after_fresh)

lemma all_records_sequential:
  "all_records ev (sequential_deletions k)
     = map (\<lambda>n. make_record ev (int n) (numbered_file n)) [0..<k]"
  unfolding sequential_deletions_def
  by (induction k) (simp_all add: all_records_def)

lemma itemsToDelete_sample: "itemsToDelete sample_items [''/data/a''] = [sample_items ! 0]"
  by (simp add: itemsToDelete_def List.map_filter_def sample_items_def mk_entry_def)

lemma sample_deletion_history:
  "delete_history (run sample_start sample_deletion)
     = Some [make_record sample_env 1001 (sample_items ! 0)]"
proof -
  have 1: "step sample_start (sample_env, ScanClicked) = sample_loaded"
    by (simp add: sample_loaded_def)
  have 2: "step sample_loaded (sample_env, ToggleSelection ''/data/a'')
             = sample_loaded\<lparr>selectedItems := [''/data/a'']\<rparr>"
    by (simp add: toggleSelection_def set_has_def set_add_def sample_loaded_eq)
  have 3: "delete_history
             (step (sample_loaded\<lparr>selectedItems := [''/data/a'']\<rparr>) (sample_env, DeleteSelected))
           = Some [make_record sample_env 1001 (sample_items ! 0)]"
    by (simp add: deleteSelected_def Let_def sample_env_def startScan_def scan_finally_def
        sample_loaded_eq sample_start_def initial_def truthy_def save_history_def
        itemsToDelete_sample split: sum.splits)
  show ?thesis
    by (simp only: sample_deletion_def run_def foldl_Cons foldl_Nil 1 2 3)
qed

text \<open>
  The witness: one deletion in the sample directory, and 150 deletions of one file each,
  after which the files 149 down to 50 are stored.
\<close>

theorem delete_history_bounded_newest_first_witness:
  "length (getDeleteHistory (delete_history sample_start)) \<le> 100
   \<and> length (getDeleteHistory (delete_history (run sample_start sample_deletion))) \<le> 100
   \<and> delete_history (run sample_start sample_deletion)
       = Some [make_record sample_env 1001 (sample_items ! 0)]
   \<and> getDeleteHistory (history_after sample_env (sequential_deletions 150) None)
       = map (\<lambda>n. make_record sample_env (int n) (numbered_file n)) (rev [50..<150])
   \<and> length (getDeleteHistory (history_after sample_env (sequential_deletions 150) None)) = 100"
proof -
  have h: "length (getDeleteHistory (delete_history sample_start)) \<le> 100"
    by (simp add: sample_start_def initial_def getDeleteHistory_def)
  have t: "take 100 (rev [0..<150]) = rev [50..<150]"
    by (simp add: take_rev)
  show ?thesis
    using delete_history_bounded_newest_first
            [OF h, of sample_deletion sample_env _ _ _ "sequential_deletions 150"]
          h sample_deletion_history
    by (simp add: all_records_sequential rev_map take_map t)
qed

section \<open>Deleting a selection\<close>

lemma itemsToDelete_paths:
  "set selected \<subseteq> path ` set its \<Longrightarrow> map path (itemsToDelete its selected) = selected"
proof (induction selected)
  case Nil
  then show ?case by (simp add: itemsToDelete_def List.map_filter_def)
next
  case (Cons p ps)
  then obtain i where "i \<in> set its" "path i = p" by auto
  then obtain x where x: "find (\<lambda>i. path i = p) its = Some x"
    by (cases "find (\<lambda>i. path i = p) its") (auto simp: find_None_iff)
  then have "path x = p" by (auto simp: find_Some_iff)
  with Cons x show ?case
    by (simp add: itemsToDelete_def List.map_filter_def)
qed

lemma deleteSelected_success:
  assumes "selectedItems st \<noteq> []" and "confirm ev"
    and "delete_items ev (selectedItems st) = Inr u"
  shows "deleteSelected ev st =
     (let st4 = st\<lparr>invoked := invoked st @ [DeleteItems (selectedItems st)],
                   delete_history := Some (save_history ev (date_now ev (clock_reads st))
                       (itemsToDelete (items st) (selectedItems st)) (delete_history st)),
                   clock_reads := Suc (clock_reads st),
                   selectedItems := [],
                   scanCache := cache_invalidate (scanCache st) (currentPath st)\<rparr>;
          st5 = startScan (scanCache st) True ev st4
      in st5\<lparr>alerts := alerts st5 @ [DeleteOk]\<rparr>)"
  using assms by (simp add: deleteSelected_def Let_def truthy_def)

lemma deleteSelected_effect:
  assumes "selectedItems st \<noteq> []" and "confirm ev"
    and "delete_items ev (selectedItems st) = Inr u"
    and "currentPath st \<noteq> []"
  shows "invoked (deleteSelected ev st)
           = invoked st @ [DeleteItems (selectedItems st), ScanFast (currentPath st)]"
    and "scanCache (deleteSelected ev st)
           = (case scan_directory_fast ev (currentPath st) of
                Inl err \<Rightarrow> cache_invalidate (scanCache st) (currentPath st)
              | Inr its \<Rightarrow>
                  cache_put (cache_invalidate (scanCache st) (currentPath st)) (currentPath st)
                    its (stats_of its) (date_now ev (Suc (clock_reads st))))"
    and "delete_history (deleteSelected ev st)
           = Some (take 100
               (rev (map (make_record ev (date_now ev (clock_reads st)))
                      (itemsToDelete (items st) (selectedItems st)))
                @ getDeleteHistory (delete_history st)))"
proof -
  define st4 where "st4 = st\<lparr>invoked := invoked st @ [DeleteItems (selectedItems st)],
                   delete_history := Some (save_history ev (date_now ev (clock_reads st))
                       (itemsToDelete (items st) (selectedItems st)) (delete_history st)),
                   clock_reads := Suc (clock_reads st),
                   selectedItems := [],
                   scanCache := cache_invalidate (scanCache st) (currentPath st)\<rparr>"
  have d: "deleteSelected ev st
             = (startScan (scanCache st) True ev st4)
                 \<lparr>alerts := alerts (startScan (scanCache st) True ev st4) @ [DeleteOk]\<rparr>"
    unfolding st4_def using deleteSelected_success [OF assms(1-3)] by (simp add: Let_def)
  have p: "currentPath st4 \<noteq> []" and c: "currentPath st4 = currentPath st"
    using assms(4) by (simp_all add: st4_def)
  have "invoked (deleteSelected ev st)
           = invoked st @ [DeleteItems (selectedItems st), ScanFast (currentPath st)]
       \<and> scanCache (deleteSelected ev st)
           = (case scan_directory_fast ev (currentPath st) of
                Inl err \<Rightarrow> cache_invalidate (scanCache st) (currentPath st)
              | Inr its \<Rightarrow>
                  cache_put (cache_invalidate (scanCache st) (currentPath st)) (currentPath st)
                    its (stats_of its) (date_now ev (Suc (clock_reads st))))
       \<and> delete_history (deleteSelected ev st)
           = Some (take 100
               (rev (map (make_record ev (date_now ev (clock_reads st)))
                      (itemsToDelete (items st) (selectedItems st)))
                @ getDeleteHistory (delete_history st)))"
  proof (cases "scan_directory_fast ev (currentPath st)")
    case (Inl err)
    then have "scan_directory_fast ev (currentPath st4) = Inl err" by (simp add: c)
    from startScan_failure [OF p _ this, of True "scanCache st"] Inl
    show ?thesis by (simp add: d, simp add: st4_def save_history_eq)
  next
    case (Inr its)
    then have "scan_directory_fast ev (currentPath st4) = Inr its" by (simp add: c)
    from startScan_success [OF p _ this, of True "scanCache st"] Inr
    show ?thesis by (simp add: d, simp add: st4_def save_history_eq)
  qed
  then show "invoked (deleteSelected ev st)
           = invoked st @ [DeleteItems (selectedItems st), ScanFast (currentPath st)]"
    and "scanCache (deleteSelected ev st)
           = (case scan_directory_fast ev (currentPath st) of
                Inl err \<Rightarrow> cache_invalidate (scanCache st) (currentPath st)
              | Inr its \<Rightarrow>
                  cache_put (cache_invalidate (scanCache st) (currentPath st)) (currentPath st)
                    its (stats_of its) (date_now ev (Suc (clock_reads st))))"
    and "delete_history (deleteSelected ev st)
           = Some (take 100
               (rev (map (make_record ev (date_now ev (clock_reads st)))
                      (itemsToDelete (items st) (selectedItems st)))
                @ getDeleteHistory (delete_history st)))"
    by simp_all
qed

text \<open>
  When every selected path is the path of a shown item, the recorded items are one per
  selected path, in the order of the selection.
\<close>

lemma deleteSelected_shown_selection:
  assumes "selectedItems st \<noteq> []" and "confirm ev"
    and "delete_items ev (selectedItems st) = Inr u"
    and "set (selectedItems st) \<subseteq> path ` set (items st)"
    and "currentPath st \<noteq> []"
  shows "invoked (deleteSelected ev st)
           = invoked st @ [DeleteItems (selectedItems st), ScanFast (currentPath st)]
       \<and> map path (itemsToDelete (items st) (selectedItems st)) = selectedItems st
       \<and> delete_history (deleteSelected ev st)
           = Some (take 100
               (rev (map (make_record ev (date_now ev (clock_reads st)))
                      (itemsToDelete (items st) (selectedItems st)))
                @ getDeleteHistory (delete_history st)))"
  using deleteSelected_effect [OF assms(1-3,5)] itemsToDelete_paths [OF assms(4)]
  by simp

lemma sample_selected_eq:
  "sample_selected = sample_loaded\<lparr>selectedItems := [''/data/a'']\<rparr>"
  by (simp add: sample_selected_def toggleSelection_def set_has_def set_add_def
      sample_loaded_eq)

lemma sample_elsewhere_fields:
  "selectedItems sample_elsewhere = [''/data/a'']"
  "currentPath sample_elsewhere = ''/data/c''"
  "items sample_elsewhere = [mk_entry ''/data/c/z'' ''z'' 50 False]"
  "invoked sample_elsewhere = [ScanFast ''/data'', ScanFast ''/data/c'']"
  "delete_history sample_elsewhere = None"
  by (simp_all add: sample_elsewhere_def sample_selected_eq sample_defs)

lemma sample_reselected_fields:
  "selectedItems sample_reselected = [''/data/a'']"
  "currentPath sample_reselected = ''/data''"
  "items sample_reselected = [mk_entry ''/data/c/z'' ''z'' 50 False]"
  "invoked sample_reselected = [ScanFast ''/data'', ScanFast ''/data/c'']"
  "delete_history sample_reselected = None"
  by (simp_all add: sample_reselected_def selectDirectory_def truthy_def
      sample_elsewhere_fields)

lemma sample_reselected_reached: "run sample_start sample_reselection = sample_reselected"
proof -
  have 1: "step sample_start (sample_env, ScanClicked) = sample_loaded"
    by (simp add: sample_loaded_def)
  have 2: "step sample_loaded (sample_env, ToggleSelection ''/data/a'') = sample_selected"
    by (simp add: sample_selected_def)
  have 3: "step sample_selected (sample_env, EnterDirectory (sample_items ! 1))
             = sample_elsewhere"
    by (simp add: sample_elsewhere_def)
  have 4: "step sample_elsewhere (sample_env, SelectDirectory (Some ''/data''))
             = sample_reselected"
    by (simp add: sample_reselected_def)
  show ?thesis
    by (simp only: sample_reselection_def run_def foldl_Cons foldl_Nil 1 2 3 4)
qed

lemma sample_failed_enter_fields:
  "selectedItems sample_failed_enter = [''/data/a'']"
  "currentPath sample_failed_enter = ''/data/b''"
  "items sample_failed_enter = sample_items"
  "invoked sample_failed_enter = [ScanFast ''/data'', ScanFast ''/data/b'']"
  "cache_get (scanCache sample_failed_enter) ''/data''
     = Some \<lparr>c_items = sample_items, c_stats = stats_of sample_items, timestamp = 1000\<rparr>"
  by (simp_all add: sample_failed_enter_def sample_selected_eq sample_defs)

text \<open>
  C5. The specification has a successful deletion of selected entries under the current
  directory record one entry of history per deleted entry and invalidate the cache entry
  of their parent. In the sample, \<^verbatim>\<open>a\<close> is selected in the root, \<^verbatim>\<open>c\<close> is opened
  and the root is picked again in the directory dialog: the current path is the root,
  the selection is \<^verbatim>\<open>/data/a\<close>, the one file of \<^verbatim>\<open>c\<close> is on display. The deletion
  is confirmed and the backend deletes \<^verbatim>\<open>/data/a\<close>, yet no record is stored, because
  no shown item has the selected path. And when \<^verbatim>\<open>a\<close> is selected and opening
  \<^verbatim>\<open>b\<close> has failed, the deletion records \<^verbatim>\<open>a\<close> but invalidates and rescans
  \<^verbatim>\<open>/data/b\<close>, so that the cache entry of the parent still lists the deleted \<^verbatim>\<open>a\<close>.
\<close>

theorem deleteSelected_unrecorded_deletion:
  "run sample_start sample_reselection = sample_reselected
   \<and> currentPath sample_reselected = ''/data''
   \<and> selectedItems sample_reselected = [''/data/a'']
   \<and> map path (items sample_reselected) = [''/data/c/z'']
   \<and> confirm sample_env \<and> delete_items sample_env [''/data/a''] = Inr ()
   \<and> invoked (deleteSelected sample_env sample_reselected)
       = [ScanFast ''/data'', ScanFast ''/data/c'', DeleteItems [''/data/a''],
          ScanFast ''/data'']
   \<and> delete_history (deleteSelected sample_env sample_reselected) = Some []
   \<and> selectedItems sample_failed_enter = [''/data/a'']
   \<and> items sample_failed_enter = sample_items
   \<and> invoked (deleteSelected sample_env sample_failed_enter)
       = [ScanFast ''/data'', ScanFast ''/data/b'', DeleteItems [''/data/a''],
          ScanFast ''/data/b'']
   \<and> map_option c_items
        (cache_get (scanCache (deleteSelected sample_env sample_failed_enter)) ''/data'')
       = Some sample_items
   \<and> path (sample_items ! 0) = ''/data/a''"
proof -
  have c: "confirm sample_env" and d: "delete_items sample_env xs = Inr ()" for xs
    by (simp_all add: sample_env_def)
  have i: "itemsToDelete [mk_entry ''/data/c/z'' ''z'' 50 False] [''/data/a''] = []"
    by (simp add: itemsToDelete_def List.map_filter_def mk_entry_def)
  have r1: "selectedItems sample_reselected \<noteq> []" and r4: "currentPath sample_reselected \<noteq> []"
    by (simp_all add: sample_reselected_fields)
  note r = deleteSelected_effect(1,3) [OF r1 c d r4]
  have f1: "selectedItems sample_failed_enter \<noteq> []"
    and f4: "currentPath sample_failed_enter \<noteq> []"
    by (simp_all add: sample_failed_enter_fields)
  have b: "scan_directory_fast sample_env ''/data/b'' = Inl ''cannot read directory''"
    by (simp add: sample_env_def sample_scan_def)
  note f = deleteSelected_effect(1,2) [OF f1 c d f4]
  have fc: "map_option c_items
              (cache_get (scanCache (deleteSelected sample_env sample_failed_enter)) ''/data'')
            = Some sample_items"
    using sample_failed_enter_fields(5)
    by (simp add: f(2) sample_failed_enter_fields(2) b cache_get_def cache_invalidate_def)
  have p: "path (sample_items ! 0) = ''/data/a''"
    by (simp add: sample_items_def mk_entry_def)
  have ri: "invoked (deleteSelected sample_env sample_reselected)
              = [ScanFast ''/data'', ScanFast ''/data/c'', DeleteItems [''/data/a''],
                 ScanFast ''/data'']"
    using r(1) by (simp add: sample_reselected_fields)
  have rh: "delete_history (deleteSelected sample_env sample_reselected) = Some []"
    using r(2) by (simp add: sample_reselected_fields i getDeleteHistory_def)
  have fi: "invoked (deleteSelected sample_env sample_failed_enter)
              = [ScanFast ''/data'', ScanFast ''/data/b'', DeleteItems [''/data/a''],
                 ScanFast ''/data/b'']"
    using f(1) by (simp add: sample_failed_enter_fields(1-4))
  have mp: "map path (items sample_reselected) = [''/data/c/z'']"
    by (simp add: sample_reselected_fields mk_entry_def)
  show ?thesis
    by (intro conjI sample_reselected_reached sample_reselected_fields(2)
        sample_reselected_fields(1) mp c d ri rh sample_failed_enter_fields(1)
        sample_failed_enter_fields(3) fi fc p)
qed

section \<open>The cache between a put and a get\<close>

lemma prewarm_invoked:
  "invoked (prewarm ev snap ds st)
     = invoked st
       @ map ScanFast (map path (filter (\<lambda>item. cache_get snap (path item) = None) ds))"
  by (induction ds arbitrary: st) (simp_all add: Let_def split: sum.splits)

lemma prewarm_cache_other:
  "q \<notin> path ` set (filter (\<lambda>item. cache_get snap (path item) = None) ds) \<Longrightarrow>
   scanCache (prewarm ev snap ds st) q = scanCache st q"
  by (induction ds arbitrary: st) (auto simp: Let_def cache_put_def split: sum.splits)

lemma prewarm_frame:
  "items (prewarm ev snap ds st) = items st
   \<and> stats (prewarm ev snap ds st) = stats st
   \<and> currentPath (prewarm ev snap ds st) = currentPath st
   \<and> pathHistory (prewarm ev snap ds st) = pathHistory st
   \<and> selectedItems (prewarm ev snap ds st) = selectedItems st
   \<and> alerts (prewarm ev snap ds st) = alerts st
   \<and> isScanning (prewarm ev snap ds st) = isScanning st
   \<and> timers (prewarm ev snap ds st) = timers st"
  by (induction ds arbitrary: st) (simp_all add: Let_def split: sum.splits)

lemma startScan_cache:
  "scanCache (startScan snap f ev st) q = scanCache st q \<or>
   (q = currentPath st \<and> invoked (startScan snap f ev st) = invoked st @ [ScanFast q])"
  by (simp add: startScan_def scan_finally_def Let_def cache_put_def
      split: option.splits sum.splits)

lemma enterDirectory_cache:
  "scanCache (enterDirectory item ev st) q = scanCache st q \<or>
   invoked (enterDirectory item ev st) = invoked st @ [ScanFast q]"
  by (simp add: enterDirectory_def scan_finally_def Let_def cache_put_def
      split: option.splits sum.splits)

lemma deleteSelected_cache:
  "scanCache (deleteSelected ev st) q = scanCache st q \<or> q = currentPath st"
proof (cases "q = currentPath st")
  case False
  let ?st4 = "\<lambda>h. st\<lparr>invoked := invoked st @ [DeleteItems (selectedItems st)],
       delete_history := h, clock_reads := Suc (clock_reads st), selectedItems := [],
       scanCache := cache_invalidate (scanCache st) (currentPath st)\<rparr>"
  have "scanCache (startScan snap f ev (?st4 h)) q = scanCache st q" for snap f h
    using startScan_cache [of snap f ev "?st4 h" q] False
    by (auto simp: cache_invalidate_def)
  then show ?thesis
    by (simp add: deleteSelected_def Let_def split: sum.splits)
qed simp

lemma scanClicked_cache:
  "scanCache (scanClicked ev st) q = scanCache st q \<or> q = currentPath st"
  using startScan_cache [of "scanCache st" True ev
      "st\<lparr>scanCache := cache_invalidate (scanCache st) (currentPath st)\<rparr>" q]
  by (auto simp: scanClicked_def cache_invalidate_def)

text \<open>
  One handler run, whatever the clock reads, leaves the entry of a path as it is unless
  the run asked the backend to scan that path or was a deletion or a scan click while
  that path was the current one.
\<close>

lemma step_cache_frame:
  "cache_get (scanCache (step st e)) p = cache_get (scanCache st) p
   \<or> ScanFast p \<in> set (drop (length (invoked st)) (invoked (step st e)))
   \<or> (currentPath st = p \<and> (snd e = DeleteSelected \<or> snd e = ScanClicked))"
proof -
  obtain ev a where e: "e = (ev, a)" by (cases e)
  show ?thesis
  proof (cases a)
    case (EnterDirectory item)
    then show ?thesis
      using enterDirectory_cache [of item ev st p] by (auto simp: e cache_get_def)
  next
    case DeleteSelected
    then show ?thesis
      using deleteSelected_cache [of ev st p] by (auto simp: e cache_get_def)
  next
    case ScanClicked
    then show ?thesis
      using scanClicked_cache [of ev st p] by (auto simp: e cache_get_def)
  next
    case TimerFired
    show ?thesis
    proof (cases "timers st")
      case Nil
      then show ?thesis by (simp add: e TimerFired fire_timer_def)
    next
      case (Cons task rest)
      let ?ds = "topDirs (t_items task)"
      let ?hit = "filter (\<lambda>item. cache_get (t_snapshot task) (path item) = None) ?ds"
      have s: "step st e = prewarm ev (t_snapshot task) ?ds (st\<lparr>timers := rest\<rparr>)"
        by (simp add: e TimerFired fire_timer_def Cons run_timer_def)
      show ?thesis
      proof (cases "p \<in> path ` set ?hit")
        case True
        then show ?thesis unfolding s prewarm_invoked by auto
      next
        case False
        from prewarm_cache_other [OF this] show ?thesis
          unfolding s by (simp add: cache_get_def)
      qed
    qed
  qed (simp_all add: e selectDirectory_def goBack_def toggleSelection_def
        clearDeleteHistory_def Let_def cache_get_def split: option.splits)
qed

lemma ops_other_keys:
  "\<forall>op \<in> set ops. op_key op \<noteq> p \<Longrightarrow>
   cache_get (foldl apply_op c ops) p = cache_get c p"
proof (induction ops arbitrary: c)
  case Nil
  then show ?case by simp
next
  case (Cons op ops)
  then have "cache_get (apply_op c op) p = cache_get c p"
    by (cases op) (auto simp: cache_get_def cache_put_def cache_invalidate_def)
  with Cons show ?case by simp
qed

lemma enterDirectory_hit:
  assumes "is_directory item" and "cache_get (scanCache st) (path item) = Some ent"
  shows "enterDirectory item ev st
           = st\<lparr>pathHistory := pathHistory st @ [currentPath st], currentPath := path item,
                items := c_items ent, stats := c_stats ent\<rparr>"
  using assms by (simp add: enterDirectory_def Let_def)

text \<open>
  C2. After a put for a path, a get for that path returns the items, statistics and
  time stamp that were put, and goes on returning them after any sequence of puts and
  invalidations of other paths; an invalidation of the path removes the entry. No
  handler run removes or replaces the entry of a path unless it scans that path (a put)
  or is a deletion or scan click at that path (an invalidation); the clock, which the
  environment is free to choose, plays no part. A directory whose path has an entry is
  opened from the entry, without a scan.
\<close>

theorem cache_get_after_put:
  assumes "\<forall>op \<in> set ops. op_key op \<noteq> p"
    and "is_directory item" and "cache_get (scanCache st') (path item) = Some ent"
  shows "cache_get (cache_put c p its sts t) p
           = Some \<lparr>c_items = its, c_stats = sts, timestamp = t\<rparr>
       \<and> cache_get (foldl apply_op (cache_put c p its sts t) ops) p
           = Some \<lparr>c_items = its, c_stats = sts, timestamp = t\<rparr>
       \<and> cache_get (cache_invalidate c p) p = None
       \<and> (cache_get (scanCache (step st e)) p = cache_get (scanCache st) p
          \<or> ScanFast p \<in> set (drop (length (invoked st)) (invoked (step st e)))
          \<or> (currentPath st = p \<and> (snd e = DeleteSelected \<or> snd e = ScanClicked)))
       \<and> items (enterDirectory item ev st') = c_items ent
       \<and> stats (enterDirectory item ev st') = c_stats ent
       \<and> invoked (enterDirectory item ev st') = invoked st'"
  using ops_other_keys [OF assms(1), of "cache_put c p its sts t"] step_cache_frame [of st e p]
  by (simp add: enterDirectory_hit [OF assms(2,3)])
     (simp add: cache_get_def cache_put_def cache_invalidate_def)

lemma sample_warm_a:
  "cache_get (scanCache sample_warm) ''/data/a''
     = Some \<lparr>c_items = [mk_entry ''/data/a/x'' ''x'' 200 False,
                        mk_entry ''/data/a/y'' ''y'' 100 False],
             c_stats = \<lparr>count = 2, totalSize = 300\<rparr>, timestamp = 1001\<rparr>"
  by (simp add: sample_warm_def fire_timer_def run_timer_def topDirs_def sample_defs
      stats_of_sum)

theorem cache_get_after_put_witness:
  "op_key (Put ''/data/a'' [] (stats_of []) 5) \<noteq> ''/data''
   \<and> op_key (Invalidate ''/data/c'') \<noteq> ''/data''
   \<and> is_directory (sample_items ! 0)
   \<and> cache_get (foldl apply_op (cache_put Map.empty ''/data'' sample_items (stats_of sample_items) 1)
        [Put ''/data/a'' [] (stats_of []) 5, Invalidate ''/data/c'']) ''/data''
       = Some \<lparr>c_items = sample_items, c_stats = stats_of sample_items, timestamp = 1\<rparr>
   \<and> items (enterDirectory (sample_items ! 0) sample_env sample_warm)
       = [mk_entry ''/data/a/x'' ''x'' 200 False, mk_entry ''/data/a/y'' ''y'' 100 False]
   \<and> stats (enterDirectory (sample_items ! 0) sample_env sample_warm)
       = \<lparr>count = 2, totalSize = 300\<rparr>
   \<and> invoked (enterDirectory (sample_items ! 0) sample_env sample_warm) = invoked sample_warm"
proof -
  have 1: "\<forall>op \<in> set [Put ''/data/a'' [] (stats_of []) 5, Invalidate ''/data/c''].
             op_key op \<noteq> ''/data''"
    by simp
  have 2: "is_directory (sample_items ! 0)"
    by (simp add: sample_items_def mk_entry_def)
  have p: "path (sample_items ! 0) = ''/data/a''"
    by (simp add: sample_items_def mk_entry_def)
  have 3: "cache_get (scanCache sample_warm) (path (sample_items ! 0))
             = Some \<lparr>c_items = [mk_entry ''/data/a/x'' ''x'' 200 False,
                                mk_entry ''/data/a/y'' ''y'' 100 False],
                     c_stats = \<lparr>count = 2, totalSize = 300\<rparr>, timestamp = 1001\<rparr>"
    by (simp only: p sample_warm_a)
  show ?thesis
    using cache_get_after_put [OF 1 2 3, of Map.empty sample_items "stats_of sample_items" 1]
      2
    by simp
qed

section \<open>The pre-cache timer\<close>

lemma prewarm_cache_failed:
  "scan_directory_fast ev q = Inl err \<Longrightarrow>
   scanCache (prewarm ev snap ds st) q = scanCache st q"
  by (induction ds arbitrary: st) (auto simp: Let_def cache_put_def split: sum.splits)

lemma prewarm_cache_target:
  assumes "scan_directory_fast ev q = Inr sub"
  shows "q \<in> path ` set (filter (\<lambda>item. cache_get snap (path item) = None) ds) \<Longrightarrow>
     map_option c_items (scanCache (prewarm ev snap ds st) q) = Some sub
     \<and> map_option c_stats (scanCache (prewarm ev snap ds st) q) = Some (stats_of sub)"
proof (induction ds arbitrary: st)
  case Nil
  then show ?case by simp
next
  case (Cons item ds)
  let ?rest = "filter (\<lambda>item. cache_get snap (path item) = None) ds"
  show ?case
  proof (cases "q \<in> path ` set ?rest")
    case True
    from Cons.IH [OF this] show ?thesis by simp
  next
    case False
    with Cons.prems have q: "q = path item" and u: "cache_get snap (path item) = None"
      by (auto split: if_splits)
    show ?thesis
      using assms u prewarm_cache_other [OF False, of ev]
      by (simp add: q Let_def cache_put_def)
  qed
qed

lemma top_dirs_largest:
  assumes "descending its"
  shows "\<forall>d \<in> set (topDirs its). \<forall>e \<in> set (drop 5 (filter is_directory its)).
           size_bytes e \<le> size_bytes d"
proof -
  let ?ds = "filter is_directory its"
  have "sorted_wrt (\<lambda>a b. size_bytes a \<ge> size_bytes b) ?ds"
    using assms unfolding descending_def by (rule sorted_wrt_filter)
  then have "sorted_wrt (\<lambda>a b. size_bytes a \<ge> size_bytes b) (take 5 ?ds @ drop 5 ?ds)"
    by simp
  then show ?thesis
    unfolding topDirs_def sorted_wrt_append by blast
qed

lemma prewarm_targets_length: "length (prewarm_targets snap its) \<le> 5"
proof -
  have "length (prewarm_targets snap its) \<le> length (topDirs its)"
    by (simp add: prewarm_targets_def)
  also have "\<dots> \<le> 5" by (simp add: topDirs_def)
  finally show ?thesis .
qed

text \<open>
  C4, amended. A scan by \<open>startScan\<close> that completes with the items \<open>its\<close> shows them
  and leaves one more timer pending, having asked the backend for nothing but that scan;
  a pending timer that fires runs its callback. The callback, in whatever state and
  environment it runs, asks for a fast scan of those of the first five directories of
  \<open>its\<close> whose path had no entry in the cache the scan was started from, in their
  order: at most five scans, and none when all five had an entry. It leaves items,
  statistics and alerts alone; a target whose scan succeeds has an entry with that result
  afterwards; a target whose scan fails and a path that is no target keep the entry they
  had. When \<open>its\<close> is in descending size order, no directory after the first five is
  larger than one of them.
\<close>

theorem prewarm_first_five_uncached:
  "(currentPath st \<noteq> [] \<and> (forceRefresh \<or> cache_get snap (currentPath st) = None)
      \<and> scan_directory_fast ev (currentPath st) = Inr its \<longrightarrow>
        items (startScan snap forceRefresh ev st) = its
      \<and> invoked (startScan snap forceRefresh ev st) = invoked st @ [ScanFast (currentPath st)]
      \<and> timers (startScan snap forceRefresh ev st)
          = timers st @ [\<lparr>t_items = its, t_snapshot = snap\<rparr>])
   \<and> (timers st2 = task # rest \<longrightarrow>
        fire_timer ev2 st2 = run_timer ev2 task (st2\<lparr>timers := rest\<rparr>))
   \<and> prewarm_targets snap its
       = map path (filter (\<lambda>item. cache_get snap (path item) = None)
                     (take 5 (filter is_directory its)))
   \<and> length (prewarm_targets snap its) \<le> 5
   \<and> invoked (run_timer ev2 \<lparr>t_items = its, t_snapshot = snap\<rparr> st2)
       = invoked st2 @ map ScanFast (prewarm_targets snap its)
   \<and> items (run_timer ev2 \<lparr>t_items = its, t_snapshot = snap\<rparr> st2) = items st2
   \<and> stats (run_timer ev2 \<lparr>t_items = its, t_snapshot = snap\<rparr> st2) = stats st2
   \<and> alerts (run_timer ev2 \<lparr>t_items = its, t_snapshot = snap\<rparr> st2) = alerts st2
   \<and> (q \<in> set (prewarm_targets snap its) \<longrightarrow>
        map_option c_items
          (cache_get (scanCache (run_timer ev2 \<lparr>t_items = its, t_snapshot = snap\<rparr> st2)) q)
        = (case scan_directory_fast ev2 q of
             Inr sub \<Rightarrow> Some sub
           | Inl err \<Rightarrow> map_option c_items (cache_get (scanCache st2) q)))
   \<and> (q \<notin> set (prewarm_targets snap its) \<longrightarrow>
        cache_get (scanCache (run_timer ev2 \<lparr>t_items = its, t_snapshot = snap\<rparr> st2)) q
        = cache_get (scanCache st2) q)
   \<and> (descending its \<longrightarrow>
        (\<forall>d \<in> set (topDirs its). \<forall>e \<in> set (drop 5 (filter is_directory its)).
           size_bytes e \<le> size_bytes d))"
proof -
  let ?after = "run_timer ev2 \<lparr>t_items = its, t_snapshot = snap\<rparr> st2"
  let ?hit = "filter (\<lambda>item. cache_get snap (path item) = None) (topDirs its)"
  have t: "map_option c_items (cache_get (scanCache ?after) q)
             = (case scan_directory_fast ev2 q of
                  Inr sub \<Rightarrow> Some sub
                | Inl err \<Rightarrow> map_option c_items (cache_get (scanCache st2) q))"
    if "q \<in> set (prewarm_targets snap its)"
  proof -
    from that have q: "q \<in> path ` set ?hit"
      by (simp add: prewarm_targets_def)
    show ?thesis
    proof (cases "scan_directory_fast ev2 q")
      case (Inl err)
      then show ?thesis by (simp add: run_timer_def cache_get_def prewarm_cache_failed)
    next
      case (Inr sub)
      with prewarm_cache_target [OF Inr q, of st2] show ?thesis
        by (simp add: run_timer_def cache_get_def)
    qed
  qed
  have o: "cache_get (scanCache ?after) q = cache_get (scanCache st2) q"
    if "q \<notin> set (prewarm_targets snap its)"
  proof -
    from that have "q \<notin> path ` set ?hit"
      by (simp add: prewarm_targets_def)
    from prewarm_cache_other [OF this, of ev2 st2] show ?thesis
      by (simp add: run_timer_def cache_get_def)
  qed
  have f: "items ?after = items st2" "stats ?after = stats st2" "alerts ?after = alerts st2"
    using prewarm_frame [of ev2 snap "topDirs its" st2] by (simp_all add: run_timer_def)
  have i: "invoked ?after = invoked st2 @ map ScanFast (prewarm_targets snap its)"
    by (simp add: run_timer_def prewarm_invoked prewarm_targets_def)
  have d: "prewarm_targets snap its
             = map path (filter (\<lambda>item. cache_get snap (path item) = None)
                           (take 5 (filter is_directory its)))"
    by (simp add: prewarm_targets_def topDirs_def)
  have s: "items (startScan snap forceRefresh ev st) = its
      \<and> invoked (startScan snap forceRefresh ev st) = invoked st @ [ScanFast (currentPath st)]
      \<and> timers (startScan snap forceRefresh ev st)
         = timers st @ [\<lparr>t_items = its, t_snapshot = snap\<rparr>]"
    if "currentPath st \<noteq> []" "forceRefresh \<or> cache_get snap (currentPath st) = None"
      "scan_directory_fast ev (currentPath st) = Inr its"
    by (simp add: startScan_success [OF that])
  have w: "fire_timer ev2 st2 = run_timer ev2 task (st2\<lparr>timers := rest\<rparr>)"
    if "timers st2 = task # rest"
    using that by (simp add: fire_timer_def)
  show ?thesis
    using s w d prewarm_targets_length [of snap its] i f t o top_dirs_largest [of its]
    by blast
qed

lemma six_targets:
  "prewarm_targets Map.empty six_dirs
     = [''/r/d1'', ''/r/d2'', ''/r/d3'', ''/r/d4'', ''/r/d5'']"
  by (simp add: prewarm_targets_def topDirs_def six_dirs_def mk_entry_def cache_get_def)

lemma six_targets_reversed:
  "prewarm_targets Map.empty (rev six_dirs)
     = [''/r/d6'', ''/r/d5'', ''/r/d4'', ''/r/d3'', ''/r/d2'']"
  by (simp add: prewarm_targets_def topDirs_def six_dirs_def mk_entry_def cache_get_def)

lemma six_warm_targets: "prewarm_targets (scanCache six_warm) six_dirs = []"
  by (simp add: prewarm_targets_def topDirs_def six_warm_def six_start_def initial_def
      scanClicked_def startScan_def scan_finally_def fire_timer_def run_timer_def
      six_env_def sample_env_def six_dirs_def mk_entry_def cache_get_def cache_put_def
      cache_invalidate_def Let_def)

lemma sample_targets:
  "prewarm_targets Map.empty sample_items = [''/data/a'', ''/data/c'', ''/data/b'']"
  by (simp add: prewarm_targets_def topDirs_def sample_items_def mk_entry_def cache_get_def)

text \<open>
  The witness: the six-directory root scanned for the first time, whose timer scans the
  first five directories; the same root scanned again, whose timer scans nothing; a
  result in ascending order, of which the first five directories are the smallest; and
  the sample root, whose timer fails silently on the unreadable directory.
\<close>

theorem prewarm_first_five_uncached_witness:
  "currentPath six_start \<noteq> []
   \<and> scan_directory_fast six_env (currentPath six_start) = Inr six_dirs
   \<and> items (startScan Map.empty True six_env six_start) = six_dirs
   \<and> timers (startScan Map.empty True six_env six_start)
       = [\<lparr>t_items = six_dirs, t_snapshot = Map.empty\<rparr>]
   \<and> invoked (run_timer six_env \<lparr>t_items = six_dirs, t_snapshot = Map.empty\<rparr> six_start)
       = map ScanFast [''/r/d1'', ''/r/d2'', ''/r/d3'', ''/r/d4'', ''/r/d5'']
   \<and> map_option c_items
        (cache_get (scanCache
           (run_timer six_env \<lparr>t_items = six_dirs, t_snapshot = Map.empty\<rparr> six_start))
           ''/r/d1'')
       = Some []
   \<and> cache_get (scanCache
         (run_timer six_env \<lparr>t_items = six_dirs, t_snapshot = Map.empty\<rparr> six_start))
         ''/r/d6''
       = None
   \<and> invoked (run_timer six_env \<lparr>t_items = six_dirs, t_snapshot = scanCache six_warm\<rparr>
                six_warm)
       = invoked six_warm
   \<and> invoked (run_timer six_env \<lparr>t_items = rev six_dirs, t_snapshot = Map.empty\<rparr> six_start)
       = map ScanFast [''/r/d6'', ''/r/d5'', ''/r/d4'', ''/r/d3'', ''/r/d2'']
   \<and> scan_directory_fast sample_env ''/data/b'' = Inl ''cannot read directory''
   \<and> map_option c_items
        (cache_get (scanCache
           (run_timer sample_env \<lparr>t_items = sample_items, t_snapshot = Map.empty\<rparr>
              sample_loaded))
           ''/data/b'')
       = None
   \<and> alerts (run_timer sample_env \<lparr>t_items = sample_items, t_snapshot = Map.empty\<rparr>
               sample_loaded)
       = []
   \<and> descending six_dirs
   \<and> size_bytes (six_dirs ! 5) \<le> size_bytes (six_dirs ! 4)"
proof -
  have 1: "currentPath six_start \<noteq> []"
    and c: "currentPath six_start = ''/r''"
    by (simp_all add: six_start_def initial_def)
  have 3: "scan_directory_fast six_env (currentPath six_start) = Inr six_dirs"
    by (simp add: c six_env_def)
  have 5: "scan_directory_fast six_env ''/r/d1'' = Inr []"
    by (simp add: six_env_def)
  have 7: "descending six_dirs"
    by (simp add: descending_def six_dirs_def mk_entry_def)
  have i: "invoked six_start = []" "scanCache six_start = Map.empty" "timers six_start = []"
    by (simp_all add: six_start_def initial_def)
  let ?first = "run_timer six_env \<lparr>t_items = six_dirs, t_snapshot = Map.empty\<rparr> six_start"
  note th1 = prewarm_first_five_uncached
               [where st = six_start and forceRefresh = True and snap = Map.empty
                  and ev = six_env and its = six_dirs and ?ev2.0 = six_env
                  and ?st2.0 = six_start and q = "''/r/d1''"]
  from th1 1 3
  have s1: "items (startScan Map.empty True six_env six_start) = six_dirs"
    and s2: "timers (startScan Map.empty True six_env six_start)
               = timers six_start @ [\<lparr>t_items = six_dirs, t_snapshot = Map.empty\<rparr>]"
    by blast+
  from th1 have a: "invoked ?first
                      = invoked six_start @ map ScanFast (prewarm_targets Map.empty six_dirs)"
    by blast
  have "''/r/d1'' \<in> set (prewarm_targets Map.empty six_dirs)"
    by (simp add: six_targets)
  with th1 have b0: "map_option c_items (cache_get (scanCache ?first) ''/r/d1'')
               = (case scan_directory_fast six_env ''/r/d1'' of
                    Inr sub \<Rightarrow> Some sub
                  | Inl err \<Rightarrow> map_option c_items (cache_get (scanCache six_start) ''/r/d1''))"
    by blast
  have b: "map_option c_items (cache_get (scanCache ?first) ''/r/d1'') = Some []"
    using b0 by (simp add: 5)
  from th1 7
  have l: "\<forall>d \<in> set (topDirs six_dirs). \<forall>e \<in> set (drop 5 (filter is_directory six_dirs)).
             size_bytes e \<le> size_bytes d"
    by blast
  have "six_dirs ! 4 \<in> set (topDirs six_dirs)"
    and "six_dirs ! 5 \<in> set (drop 5 (filter is_directory six_dirs))"
    by (simp_all add: topDirs_def six_dirs_def mk_entry_def)
  with l have l': "size_bytes (six_dirs ! 5) \<le> size_bytes (six_dirs ! 4)"
    by blast
  note th6 = prewarm_first_five_uncached
               [where snap = Map.empty and its = six_dirs and ?ev2.0 = six_env
                  and ?st2.0 = six_start and q = "''/r/d6''"]
  have "''/r/d6'' \<notin> set (prewarm_targets Map.empty six_dirs)"
    by (simp add: six_targets)
  with th6 have "cache_get (scanCache ?first) ''/r/d6'' = cache_get (scanCache six_start) ''/r/d6''"
    by blast
  then have c': "cache_get (scanCache ?first) ''/r/d6'' = None"
    by (simp add: i cache_get_def)
  have a': "invoked ?first = map ScanFast [''/r/d1'', ''/r/d2'', ''/r/d3'', ''/r/d4'', ''/r/d5'']"
    using a by (simp only: six_targets i append_Nil)
  have s2': "timers (startScan Map.empty True six_env six_start)
               = [\<lparr>t_items = six_dirs, t_snapshot = Map.empty\<rparr>]"
    using s2 by (simp only: i append_Nil)
  note th2 = prewarm_first_five_uncached
               [where snap = "scanCache six_warm" and its = six_dirs and ?ev2.0 = six_env
                  and ?st2.0 = six_warm]
  from th2 have "invoked (run_timer six_env
                    \<lparr>t_items = six_dirs, t_snapshot = scanCache six_warm\<rparr> six_warm)
                  = invoked six_warm @ map ScanFast (prewarm_targets (scanCache six_warm) six_dirs)"
    by blast
  then have n: "invoked (run_timer six_env
                    \<lparr>t_items = six_dirs, t_snapshot = scanCache six_warm\<rparr> six_warm)
                  = invoked six_warm"
    by (simp only: six_warm_targets list.map append_Nil2)
  note th3 = prewarm_first_five_uncached
               [where snap = Map.empty and its = "rev six_dirs" and ?ev2.0 = six_env
                  and ?st2.0 = six_start]
  from th3 have "invoked (run_timer six_env
                    \<lparr>t_items = rev six_dirs, t_snapshot = Map.empty\<rparr> six_start)
                  = invoked six_start @ map ScanFast (prewarm_targets Map.empty (rev six_dirs))"
    by blast
  then have u: "invoked (run_timer six_env
                    \<lparr>t_items = rev six_dirs, t_snapshot = Map.empty\<rparr> six_start)
                  = map ScanFast [''/r/d6'', ''/r/d5'', ''/r/d4'', ''/r/d3'', ''/r/d2'']"
    by (simp only: six_targets_reversed i append_Nil)
  let ?sample = "run_timer sample_env \<lparr>t_items = sample_items, t_snapshot = Map.empty\<rparr>
                   sample_loaded"
  note th4 = prewarm_first_five_uncached
               [where snap = Map.empty and its = sample_items and ?ev2.0 = sample_env
                  and ?st2.0 = sample_loaded and q = "''/data/b''"]
  have bf: "scan_directory_fast sample_env ''/data/b'' = Inl ''cannot read directory''"
    by (simp add: sample_env_def sample_scan_def)
  have "''/data/b'' \<in> set (prewarm_targets Map.empty sample_items)"
    by (simp add: sample_targets)
  with th4 have "map_option c_items (cache_get (scanCache ?sample) ''/data/b'')
               = (case scan_directory_fast sample_env ''/data/b'' of
                    Inr sub \<Rightarrow> Some sub
                  | Inl err \<Rightarrow> map_option c_items (cache_get (scanCache sample_loaded) ''/data/b''))"
    by blast
  then have sb: "map_option c_items (cache_get (scanCache ?sample) ''/data/b'') = None"
    by (simp add: bf sample_loaded_eq cache_get_def cache_put_def)
  from th4 have "alerts ?sample = alerts sample_loaded"
    by blast
  then have sa: "alerts ?sample = []"
    by (simp add: sample_loaded_eq sample_start_def initial_def)
  show ?thesis
    by (intro conjI 1 3 s1 s2' a' b c' n u bf sb sa 7 l')
qed

text \<open>
  The specification has background scans of the five largest directories that are not
  cached. After a second scan of the six-directory root, the cache the scan was started
  from holds the first five directories, so the second timer scans nothing, and the
  sixth directory, which has no entry, is never scanned.
\<close>

theorem prewarm_skips_uncached_directory_counterexample:
  "scan_directory_fast six_env ''/r'' = Inr six_dirs
   \<and> is_directory (six_dirs ! 5) \<and> path (six_dirs ! 5) = ''/r/d6''
   \<and> invoked (run six_start six_events)
       = [ScanFast ''/r'', ScanFast ''/r/d1'', ScanFast ''/r/d2'', ScanFast ''/r/d3'',
          ScanFast ''/r/d4'', ScanFast ''/r/d5'', ScanFast ''/r'']
   \<and> cache_get (scanCache (run six_start six_events)) ''/r/d6'' = None
   \<and> timers (run six_start six_events) = []"
  by (simp add: run_def six_events_def six_start_def initial_def scanClicked_def startScan_def
      scan_finally_def fire_timer_def run_timer_def topDirs_def six_env_def sample_env_def
      six_dirs_def mk_entry_def cache_get_def cache_put_def cache_invalidate_def Let_def)

section \<open>The order of presentation\<close>



lemma sort_descending_id: "descending its \<Longrightarrow> sort_by_size_desc its = its"
  unfolding sort_by_size_desc_def
  by (rule sort_key_id_if_sorted) (simp add: descending_def sorted_map)



lemma descending_Nil [simp]: "descending []"
  by (simp add: descending_def)

















section \<open>Statistics of a completed scan\<close>








end
